theory Spec2Isabelle
  imports Complex_Main "HOL-Library.Stream"
begin

section \<open>Errors and the entropy stream\<close>

text \<open>
  The generators of \<^verbatim>\<open>complexity/generator.py\<close> raise no exception of their own; the only
  exceptions come from the library calls they make: \<^verbatim>\<open>ValueError\<close> from
  \<^verbatim>\<open>random.randint\<close> on an empty range, \<^verbatim>\<open>IndexError\<close> from indexing or choosing
  in an empty sequence.
\<close>

datatype py_error = ValueError | IndexError

text \<open>
  Modelled from the spec: the RandomSource of section 4.3, which the source reaches through
  Python's process-wide \<^verbatim>\<open>random\<close> module (standard library, outside the repository).
  The state of the generator is the stream of raw draws still to come; every library call
  takes the head of the stream and maps it into the range the call documents, so that each
  value of the range is the outcome of some stream. A seed fixes the stream.
\<close>

type_synonym rng = "nat stream"

text \<open>\<^verbatim>\<open>random.random()\<close>: a multiple of \<open>2\<^sup>-\<^sup>5\<^sup>3\<close> in \<open>[0, 1)\<close>.\<close>

definition random_random :: "rng \<Rightarrow> real \<times> rng" where
  "random_random r = (real (shd r mod 2 ^ 53) / 2 ^ 53, stl r)"

text \<open>\<^verbatim>\<open>random.randint(a, b)\<close>: an integer of \<open>[a, b]\<close>; \<^verbatim>\<open>ValueError\<close> when \<open>b < a\<close>.\<close>

definition randint :: "int \<Rightarrow> int \<Rightarrow> rng \<Rightarrow> py_error + (int \<times> rng)" where
  "randint a b r =
     (if b < a then Inl ValueError
      else Inr (a + int (shd r mod nat (b - a + 1)), stl r))"

text \<open>\<^verbatim>\<open>random.choice(seq)\<close>: an element of \<open>seq\<close>; \<^verbatim>\<open>IndexError\<close> when it is empty.\<close>

definition choice :: "'a list \<Rightarrow> rng \<Rightarrow> py_error + ('a \<times> rng)" where
  "choice seq r =
     (if seq = [] then Inl IndexError
      else Inr (seq ! (shd r mod length seq), stl r))"

text \<open>
  \<^verbatim>\<open>random.choices(population, k=k)\<close> without weights is
  \<^verbatim>\<open>[population[floor(random() * n)] for i in repeat(None, k)]\<close>: \<open>k\<close> draws, none for
  \<open>k \<le> 0\<close>, and \<^verbatim>\<open>IndexError\<close> at the first draw from an empty population.
\<close>

fun choices_loop :: "'a list \<Rightarrow> nat \<Rightarrow> rng \<Rightarrow> py_error + ('a list \<times> rng)" where
  "choices_loop population 0 r = Inr ([], r)"
| "choices_loop population (Suc k) r =
     (case random_random r of (x, r1) \<Rightarrow>
        let i = nat \<lfloor>x * real (length population)\<rfloor> in
        if i < length population then
          (case choices_loop population k r1 of
             Inl e \<Rightarrow> Inl e
           | Inr (xs, r2) \<Rightarrow> Inr (population ! i # xs, r2))
        else Inl IndexError)"

definition choices :: "'a list \<Rightarrow> int \<Rightarrow> rng \<Rightarrow> py_error + ('a list \<times> rng)" where
  "choices population k r = choices_loop population (nat k) r"

section \<open>Python lists and ranges\<close>

text \<open>\<^verbatim>\<open>range(a, b)\<close> over Python's unbounded integers; empty when \<open>b \<le> a\<close>.\<close>

definition range_py :: "int \<Rightarrow> int \<Rightarrow> int list" where
  "range_py a b = [a..b - 1]"

text \<open>
  \<^verbatim>\<open>xs[i] = v\<close>: a negative index counts from the end, an index outside
  \<open>[-len, len)\<close> raises \<^verbatim>\<open>IndexError\<close>.
\<close>

definition list_setitem :: "'a list \<Rightarrow> int \<Rightarrow> 'a \<Rightarrow> py_error + 'a list" where
  "list_setitem xs i v =
     (let n = int (length xs); j = (if i < 0 then n + i else i)
      in if 0 \<le> j \<and> j < n then Inr (xs[nat j := v]) else Inl IndexError)"

section \<open>StringGenerator\<close>

text \<open>
  A Python \<^verbatim>\<open>str\<close> is a \<open>string\<close>; the alphabet is a \<^verbatim>\<open>list[str]\<close>, so a symbol
  is itself a string (of one character in every alphabet the source and the spec use).
\<close>

record StringGenerator =
  alphabet :: "string list"

text \<open>
  \<^verbatim>\<open>self.alphabet = alphabet if alphabet else ['A', 'B', 'C']\<close>: \<^verbatim>\<open>None\<close> and the
  empty list are both falsy.
\<close>

definition StringGenerator_init :: "string list option \<Rightarrow> StringGenerator" where
  "StringGenerator_init a =
     \<lparr>alphabet = (case a of
                     None \<Rightarrow> [''A'', ''B'', ''C'']
                   | Some xs \<Rightarrow> if xs \<noteq> [] then xs else [''A'', ''B'', ''C''])\<rparr>"

text \<open>\<^verbatim>\<open>return ''.join(random.choices(self.alphabet, k=size))\<close>\<close>

definition StringGenerator_generate ::
    "StringGenerator \<Rightarrow> int \<Rightarrow> rng \<Rightarrow> py_error + (string \<times> rng)" where
  "StringGenerator_generate self sz r =
     (case choices (alphabet self) sz r of
        Inl e \<Rightarrow> Inl e
      | Inr (xs, r1) \<Rightarrow> Inr (concat xs, r1))"

text \<open>
  The body of \<^verbatim>\<open>for _ in range(k)\<close> in \<^verbatim>\<open>generate_pair\<close>, run \<open>k\<close> times on the list
  \<open>str2\<close>:
  \<^verbatim>\<open>idx = random.randint(0, len(str2) - 1); str2[idx] = random.choice(self.alphabet)\<close>.
\<close>

fun mutate ::
    "StringGenerator \<Rightarrow> nat \<Rightarrow> string list \<Rightarrow> rng \<Rightarrow> py_error + (string list \<times> rng)" where
  "mutate self 0 str2 r = Inr (str2, r)"
| "mutate self (Suc k) str2 r =
     (case randint 0 (int (length str2) - 1) r of
        Inl e \<Rightarrow> Inl e
      | Inr (idx, r1) \<Rightarrow>
          (case choice (alphabet self) r1 of
             Inl e \<Rightarrow> Inl e
           | Inr (c, r2) \<Rightarrow>
               (case list_setitem str2 idx c of
                  Inl e \<Rightarrow> Inl e
                | Inr str2' \<Rightarrow> mutate self k str2' r2)))"

text \<open>
  \<^verbatim>\<open>generate_pair(len1, len2, similar)\<close>. \<^verbatim>\<open>list(str1)\<close> is the list of the
  one-character strings of \<open>str1\<close>; \<^verbatim>\<open>range(k)\<close> runs \<open>k\<close> times (no time for \<open>k \<le> 0\<close>).
\<close>

definition generate_pair ::
    "StringGenerator \<Rightarrow> int \<Rightarrow> int \<Rightarrow> bool \<Rightarrow> rng \<Rightarrow> py_error + ((string \<times> string) \<times> rng)" where
  "generate_pair self len1 len2 similar r =
     (case StringGenerator_generate self len1 r of
        Inl e \<Rightarrow> Inl e
      | Inr (str1, r1) \<Rightarrow>
          if similar then
            (let str2 = map (\<lambda>c. [c]) str1 in
             case randint 1 (len1 div 3) r1 of
               Inl e \<Rightarrow> Inl e
             | Inr (k, r2) \<Rightarrow>
                 (case mutate self (nat k) str2 r2 of
                    Inl e \<Rightarrow> Inl e
                  | Inr (str2', r3) \<Rightarrow> Inr ((str1, concat str2'), r3)))
          else
            (case StringGenerator_generate self len2 r1 of
               Inl e \<Rightarrow> Inl e
             | Inr (s2, r2) \<Rightarrow> Inr ((str1, s2), r2)))"

text \<open>The Hamming distance: the number of positions at which two strings differ.\<close>

definition hamming :: "'a list \<Rightarrow> 'a list \<Rightarrow> nat" where
  "hamming xs ys = length (filter (\<lambda>(a, b). a \<noteq> b) (zip xs ys))"

section \<open>GraphGenerator\<close>

text \<open>
  Modelled from the spec: the Graph of section 3, which the source builds with networkx
  (\<^verbatim>\<open>nx.Graph\<close>, \<^verbatim>\<open>nx.DiGraph\<close>; outside the repository). The nodes are kept in
  insertion order; \<open>adj\<close> is the adjacency dictionary, keyed by (node, neighbour), in insertion
  order, holding the \<^verbatim>\<open>weight\<close> attribute. An undirected graph stores an edge under both
  orientations.
\<close>

record graph =
  is_directed :: bool
  nodes :: "int list"
  adj :: "((int \<times> int) \<times> int) list"

definition empty_graph :: "bool \<Rightarrow> graph" where
  "empty_graph d = \<lparr>is_directed = d, nodes = [], adj = []\<rparr>"

text \<open>\<^verbatim>\<open>d[k] = v\<close> on an insertion-ordered dictionary.\<close>

fun dict_set :: "'k \<Rightarrow> 'v \<Rightarrow> ('k \<times> 'v) list \<Rightarrow> ('k \<times> 'v) list" where
  "dict_set k v [] = [(k, v)]"
| "dict_set k v (p # ps) = (if fst p = k then (k, v) # ps else p # dict_set k v ps)"

definition add_node :: "graph \<Rightarrow> int \<Rightarrow> graph" where
  "add_node g n = (if n \<in> set (nodes g) then g else g\<lparr>nodes := nodes g @ [n]\<rparr>)"

definition add_edge :: "graph \<Rightarrow> int \<Rightarrow> int \<Rightarrow> int \<Rightarrow> graph" where
  "add_edge g u v w =
     (let g1 = add_node (add_node g u) v in
      g1\<lparr>adj := (if is_directed g1 then dict_set (u, v) w (adj g1)
                 else dict_set (v, u) w (dict_set (u, v) w (adj g1)))\<rparr>)"

text \<open>
  \<^verbatim>\<open>graph.edges(data=True)\<close>: node by node in insertion order, the neighbours of the node;
  an undirected graph reports an edge once, from the endpoint met first.
\<close>

definition edges :: "graph \<Rightarrow> ((int \<times> int) \<times> int) list" where
  "edges g =
     concat (map (\<lambda>n. filter (\<lambda>((u, v), w). u = n \<and>
                                 (is_directed g \<or> v \<notin> set (takeWhile (\<lambda>m. m \<noteq> n) (nodes g))))
                        (adj g))
                 (nodes g))"

record GraphGenerator =
  directed :: bool
  weighted :: bool

text \<open>The inner loop \<^verbatim>\<open>for j in range(i + 1, size)\<close>, over the values of \<open>j\<close> still to come.\<close>

fun edges_from ::
    "GraphGenerator \<Rightarrow> int \<Rightarrow> int list \<Rightarrow> graph \<Rightarrow> rng \<Rightarrow> py_error + (graph \<times> rng)" where
  "edges_from self i [] g r = Inr (g, r)"
| "edges_from self i (j # js) g r =
     (case random_random r of (x, r1) \<Rightarrow>
        if x < 3 / 10 then
          (case (if weighted self then randint 1 10 r1 else Inr (1, r1)) of
             Inl e \<Rightarrow> Inl e
           | Inr (weight, r2) \<Rightarrow> edges_from self i js (add_edge g i j weight) r2)
        else edges_from self i js g r1)"

text \<open>The outer loop \<^verbatim>\<open>for i in range(size)\<close>, over the values of \<open>i\<close> still to come.\<close>

fun create_edges ::
    "GraphGenerator \<Rightarrow> int \<Rightarrow> int list \<Rightarrow> graph \<Rightarrow> rng \<Rightarrow> py_error + (graph \<times> rng)" where
  "create_edges self sz [] g r = Inr (g, r)"
| "create_edges self sz (i # is) g r =
     (case edges_from self i (range_py (i + 1) sz) g r of
        Inl e \<Rightarrow> Inl e
      | Inr (g', r') \<Rightarrow> create_edges self sz is g' r')"

definition GraphGenerator_generate ::
    "GraphGenerator \<Rightarrow> int \<Rightarrow> rng \<Rightarrow> py_error + (graph \<times> rng)" where
  "GraphGenerator_generate self sz r =
     (let graph = empty_graph (directed self);
          graph = foldl add_node graph (range_py 0 sz)
      in create_edges self sz (range_py 0 sz) graph r)"

text \<open>A walk follows edges; a cycle is a walk of at least one edge back to its start.\<close>

definition has_edge :: "graph \<Rightarrow> int \<Rightarrow> int \<Rightarrow> bool" where
  "has_edge g u v = ((u, v) \<in> set (map fst (edges g)))"

fun walk :: "graph \<Rightarrow> int list \<Rightarrow> bool" where
  "walk g [] = True"
| "walk g [v] = True"
| "walk g (u # v # vs) = (has_edge g u v \<and> walk g (v # vs))"

text \<open>
  What the loops of \<^verbatim>\<open>GraphGenerator.generate\<close> keep true of the graph under construction:
  the weight the source computes for an edge, the shape of a stored adjacency entry, and the
  invariant of the two loops.
\<close>

definition weight_ok :: "GraphGenerator \<Rightarrow> int \<Rightarrow> bool" where
  "weight_ok self w = (if weighted self then 1 \<le> w \<and> w \<le> 10 else w = 1)"

definition edge_ok :: "GraphGenerator \<Rightarrow> int \<Rightarrow> (int \<times> int) \<times> int \<Rightarrow> bool" where
  "edge_ok self sz e =
     (case e of ((u, v), w) \<Rightarrow>
        0 \<le> u \<and> u < sz \<and> 0 \<le> v \<and> v < sz \<and> u \<noteq> v \<and> (directed self \<longrightarrow> u < v) \<and>
        weight_ok self w)"

definition graph_inv :: "GraphGenerator \<Rightarrow> int \<Rightarrow> graph \<Rightarrow> bool" where
  "graph_inv self sz g =
     (is_directed g = directed self \<and> nodes g = range_py 0 sz \<and> distinct (map fst (adj g)) \<and>
      list_all (edge_ok self sz) (adj g))"

section \<open>Properties of the library calls and of the loops\<close>

subsection \<open>Unfolding the loops at a numeral\<close>

lemma choices_loop_pos:
  "0 < k \<Longrightarrow> choices_loop population k r =
     (case random_random r of (x, r1) \<Rightarrow>
        let i = nat \<lfloor>x * real (length population)\<rfloor> in
        if i < length population then
          (case choices_loop population (k - 1) r1 of
             Inl e \<Rightarrow> Inl e
           | Inr (xs, r2) \<Rightarrow> Inr (population ! i # xs, r2))
        else Inl IndexError)"
  by (cases k) (simp_all add: Let_def cong: sum.case_cong prod.case_cong if_cong)

lemma mutate_pos:
  "0 < k \<Longrightarrow> mutate self k str2 r =
     (case randint 0 (int (length str2) - 1) r of
        Inl e \<Rightarrow> Inl e
      | Inr (idx, r1) \<Rightarrow>
          (case choice (alphabet self) r1 of
             Inl e \<Rightarrow> Inl e
           | Inr (c, r2) \<Rightarrow>
               (case list_setitem str2 idx c of
                  Inl e \<Rightarrow> Inl e
                | Inr str2' \<Rightarrow> mutate self (k - 1) str2' r2)))"
  by (cases k) (simp_all add: Let_def cong: sum.case_cong prod.case_cong if_cong)

lemmas run_defs =
  random_random_def randint_def choice_def choices_def range_py_def list_setitem_def
  StringGenerator_init_def StringGenerator_generate_def generate_pair_def
  choices_loop_pos mutate_pos Let_def

subsection \<open>The library calls\<close>

lemma random_random_range:
  assumes "random_random r = (x, r1)"
  shows "0 \<le> x \<and> x < 1 \<and> r1 = stl r"
proof -
  have "shd r mod 2 ^ 53 < (2::nat) ^ 53" by simp
  then have "real (shd r mod 2 ^ 53) < 2 ^ 53"
    by (metis of_nat_less_iff of_nat_numeral of_nat_power)
  with assms show ?thesis by (auto simp: random_random_def)
qed

text \<open>
  The source compares \<^verbatim>\<open>random.random()\<close> with the double nearest to \<open>0.3\<close>, which is
  \<open>5404319552844595 / 2\<^sup>5\<^sup>4\<close>. On the multiples of \<open>2\<^sup>-\<^sup>5\<^sup>3\<close> that \<^verbatim>\<open>random.random()\<close>
  returns, this is the comparison with \<open>3 / 10\<close> that \<open>edges_from\<close> makes.
\<close>

lemma bernoulli_threshold:
  assumes "x = real m / 2 ^ 53"
  shows "x < 3 / 10 \<longleftrightarrow> x < 5404319552844595 / 2 ^ 54"
proof -
  have "x < 3 / 10 \<longleftrightarrow> real (10 * m) < real (3 * 2 ^ 53)"
    unfolding assms by (simp add: field_simps)
  also have "\<dots> \<longleftrightarrow> 10 * m < 3 * 2 ^ 53" by (rule of_nat_less_iff)
  also have "\<dots> \<longleftrightarrow> 2 * m < 5404319552844595" by simp (arith)
  also have "\<dots> \<longleftrightarrow> real (2 * m) < real 5404319552844595" by (rule of_nat_less_iff [symmetric])
  also have "\<dots> \<longleftrightarrow> x < 5404319552844595 / 2 ^ 54"
    unfolding assms by (simp add: field_simps)
  finally show ?thesis .
qed

lemma floor_index_less:
  assumes "0 \<le> x" "x < 1" "0 < n"
  shows "nat \<lfloor>x * real n\<rfloor> < n"
proof -
  have "x * real n < real n" using assms by simp
  then have "\<lfloor>x * real n\<rfloor> < int n" by (simp add: floor_less_iff)
  then show ?thesis using assms by linarith
qed

lemma randint_value:
  assumes "a \<le> b"
  shows "a + int (m mod nat (b - a + 1)) \<le> b"
proof -
  have "m mod nat (b - a + 1) < nat (b - a + 1)" using assms by simp
  then have "int (m mod nat (b - a + 1)) < b - a + 1" by linarith
  then show ?thesis by linarith
qed

lemma randint_Inr:
  "randint a b r = Inr (k, r') \<Longrightarrow> a \<le> k \<and> k \<le> b \<and> r' = stl r"
  by (auto simp: randint_def randint_value split: if_splits)

lemma randint_total:
  "a \<le> b \<Longrightarrow> \<exists>k. randint a b r = Inr (k, stl r) \<and> a \<le> k \<and> k \<le> b"
  by (auto simp: randint_def randint_value)

lemma randint_empty: "b < a \<Longrightarrow> randint a b r = Inl ValueError"
  by (simp add: randint_def)

lemma choice_Inr: "choice seq r = Inr (c, r') \<Longrightarrow> c \<in> set seq \<and> r' = stl r"
  by (auto simp: choice_def split: if_splits)

lemma list_setitem_Inr: "list_setitem xs i v = Inr xs' \<Longrightarrow> \<exists>j. xs' = xs[j := v]"
  by (auto simp: list_setitem_def Let_def split: if_splits)

lemma choices_loop_total:
  "population \<noteq> [] \<Longrightarrow>
   \<exists>xs r'. choices_loop population k r = Inr (xs, r') \<and> length xs = k \<and> set xs \<subseteq> set population"
proof (induction k arbitrary: r)
  case 0
  then show ?case by simp
next
  case (Suc k)
  obtain x r1 where x: "random_random r = (x, r1)" by (cases "random_random r")
  then have i: "nat \<lfloor>x * real (length population)\<rfloor> < length population"
    using random_random_range [OF x] Suc.prems by (simp add: floor_index_less)
  from Suc.IH [OF Suc.prems, of r1] obtain xs r' where
    "choices_loop population k r1 = Inr (xs, r')" "length xs = k" "set xs \<subseteq> set population"
    by blast
  with x i show ?case by (simp add: Let_def)
qed

lemma choices_loop_empty: "choices_loop [] (Suc k) r = Inl IndexError"
  by (simp add: Let_def split: prod.splits)

lemma generate_total:
  assumes "alphabet self \<noteq> []"
  shows "\<exists>xs r'. StringGenerator_generate self n r = Inr (concat xs, r') \<and>
           length xs = nat n \<and> set xs \<subseteq> set (alphabet self)"
proof -
  from choices_loop_total [OF assms, of "nat n" r] obtain xs r' where
    "choices_loop (alphabet self) (nat n) r = Inr (xs, r')" "length xs = nat n"
    "set xs \<subseteq> set (alphabet self)" by blast
  then show ?thesis by (auto simp: StringGenerator_generate_def choices_def)
qed

lemma generate_empty_alphabet:
  "alphabet self = [] \<Longrightarrow> 0 < n \<Longrightarrow> StringGenerator_generate self n r = Inl IndexError"
proof -
  assume a: "alphabet self = []" and n: "0 < n"
  then obtain k where "nat n = Suc k" by (cases "nat n") auto
  with a show ?thesis
    by (simp add: StringGenerator_generate_def choices_def choices_loop_empty)
qed

subsection \<open>Hamming distance under list updates\<close>

lemma hamming_same: "hamming xs xs = 0"
  by (induction xs) (simp_all add: hamming_def)

lemma hamming_update: "hamming xs (ys[i := a]) \<le> Suc (hamming xs ys)"
proof (induction xs arbitrary: ys i)
  case Nil
  then show ?case by (simp add: hamming_def)
next
  case (Cons x xs)
  show ?case
  proof (cases ys)
    case Nil
    then show ?thesis by (simp add: hamming_def)
  next
    case (Cons y ys')
    show ?thesis
    proof (cases i)
      case 0
      with Cons show ?thesis by (simp add: hamming_def)
    next
      case (Suc j)
      with Cons Cons.IH [of ys' j] show ?thesis by (simp add: hamming_def)
    qed
  qed
qed

lemma concat_singletons: "concat (map (\<lambda>c. [c]) s) = s"
  by (induction s) simp_all

lemma length_concat_single:
  "\<forall>s\<in>set ys. length s = 1 \<Longrightarrow> length (concat ys) = length ys"
  by (induction ys) simp_all

lemma concat_update_single:
  "\<forall>s\<in>set ys. length s = 1 \<Longrightarrow> length c = 1 \<Longrightarrow>
   concat (ys[i := c]) = (concat ys)[i := hd c]"
proof (induction ys arbitrary: i)
  case Nil
  then show ?case by simp
next
  case (Cons y ys)
  from Cons.prems obtain a where y: "y = [a]" by (cases y) auto
  from Cons.prems obtain b where c: "c = [b]" by (cases c) auto
  show ?case
  proof (cases i)
    case 0
    with y c show ?thesis by simp
  next
    case (Suc j)
    with y Cons.IH [of j] Cons.prems show ?thesis by simp
  qed
qed

lemma mutate_invariant:
  assumes alph: "\<forall>s\<in>set (alphabet self). length s = 1"
  shows "\<forall>s\<in>set ys. length s = 1 \<Longrightarrow> mutate self k ys r = Inr (ys', r') \<Longrightarrow>
         length ys' = length ys \<and> (\<forall>s\<in>set ys'. length s = 1) \<and>
         hamming x (concat ys') \<le> hamming x (concat ys) + k"
proof (induction k arbitrary: ys r)
  case 0
  then show ?case by simp
next
  case (Suc k)
  from Suc.prems(2) obtain idx r1 c r2 ys1 where
    c: "choice (alphabet self) r1 = Inr (c, r2)" and
    s: "list_setitem ys idx c = Inr ys1" and
    m: "mutate self k ys1 r2 = Inr (ys', r')"
    by (auto split: sum.splits)
  from c alph have lc: "length c = 1" by (auto dest: choice_Inr)
  from s obtain j where ys1: "ys1 = ys[j := c]" by (auto dest: list_setitem_Inr)
  have single: "\<forall>s\<in>set ys1. length s = 1"
    using Suc.prems(1) lc ys1 by (auto dest: subsetD [OF set_update_subset_insert])
  have "hamming x (concat ys1) \<le> Suc (hamming x (concat ys))"
    using concat_update_single [OF Suc.prems(1) lc, of j] hamming_update [of x "concat ys" j "hd c"]
    by (simp add: ys1)
  with Suc.IH [OF single m] show ?case by (simp add: ys1)
qed

lemma mutate_symbols:
  "mutate self k ys r = Inr (ys', r') \<Longrightarrow> set ys' \<subseteq> set ys \<union> set (alphabet self)"
proof (induction k arbitrary: ys r)
  case 0
  then show ?case by simp
next
  case (Suc k)
  from Suc.prems obtain idx r1 c r2 ys1 where
    c: "choice (alphabet self) r1 = Inr (c, r2)" and
    s: "list_setitem ys idx c = Inr ys1" and
    m: "mutate self k ys1 r2 = Inr (ys', r')"
    by (auto split: sum.splits)
  from c have "c \<in> set (alphabet self)" by (auto dest: choice_Inr)
  moreover from s obtain j where "ys1 = ys[j := c]" by (auto dest: list_setitem_Inr)
  then have "set ys1 \<subseteq> insert c (set ys)" by (simp add: set_update_subset_insert)
  ultimately show ?case using Suc.IH [OF m] by auto
qed

lemma generate_pair_similar_Inr:
  assumes "generate_pair self len1 len2 True r = Inr ((str1, str2), r')"
  shows "\<exists>r1 k r2 ys'. StringGenerator_generate self len1 r = Inr (str1, r1) \<and>
           randint 1 (len1 div 3) r1 = Inr (k, r2) \<and>
           mutate self (nat k) (map (\<lambda>c. [c]) str1) r2 = Inr (ys', r') \<and> str2 = concat ys'"
  using assms by (auto simp: generate_pair_def Let_def split: sum.splits)

lemma generate_pair_similar_short:
  assumes "len1 div 3 < 1"
  shows "generate_pair self len1 len2 True r =
           Inl (if alphabet self = [] \<and> 0 < len1 then IndexError else ValueError)"
proof (cases "alphabet self = [] \<and> 0 < len1")
  case True
  then show ?thesis by (simp add: generate_pair_def generate_empty_alphabet)
next
  case False
  have "\<exists>s r1. StringGenerator_generate self len1 r = Inr (s, r1)"
  proof (cases "alphabet self = []")
    case True
    with False have "nat len1 = 0" by simp
    then show ?thesis by (simp add: StringGenerator_generate_def choices_def)
  next
    case False
    from generate_total [OF False, of len1 r] show ?thesis by blast
  qed
  then obtain s r1 where "StringGenerator_generate self len1 r = Inr (s, r1)" by blast
  with False assms show ?thesis by (simp add: generate_pair_def randint_empty)
qed

subsection \<open>Totality and symbols of the string operations\<close>

lemma list_setitem_total:
  "0 \<le> i \<Longrightarrow> i < int (length xs) \<Longrightarrow> list_setitem xs i v = Inr (xs[nat i := v])"
  by (simp add: list_setitem_def Let_def)

lemma mutate_total:
  assumes "alphabet self \<noteq> []"
  shows "ys \<noteq> [] \<Longrightarrow> \<exists>ys' r'. mutate self k ys r = Inr (ys', r')"
proof (induction k arbitrary: ys r)
  case 0
  then show ?case by simp
next
  case (Suc k)
  from Suc.prems have "0 \<le> int (length ys) - 1" by (cases ys) simp_all
  from randint_total [OF this, of r] obtain idx where
    i: "randint 0 (int (length ys) - 1) r = Inr (idx, stl r)" "0 \<le> idx" "idx \<le> int (length ys) - 1"
    by blast
  from assms obtain c r2 where c: "choice (alphabet self) (stl r) = Inr (c, r2)"
    by (auto simp: choice_def)
  from i have s: "list_setitem ys idx c = Inr (ys[nat idx := c])"
    by (simp add: list_setitem_total)
  from Suc.prems have "ys[nat idx := c] \<noteq> []" by simp
  from Suc.IH [OF this, of r2] i(1) c s show ?case by simp
qed

lemma generate_symbols:
  assumes "StringGenerator_generate self n r = Inr (s, r')"
  shows "set s \<subseteq> (\<Union>x\<in>set (alphabet self). set x)"
proof (cases "alphabet self = []")
  case True
  show ?thesis
  proof (cases "0 < n")
    case True
    with \<open>alphabet self = []\<close> assms show ?thesis by (simp add: generate_empty_alphabet)
  next
    case False
    then have "nat n = 0" by simp
    with assms show ?thesis by (auto simp: StringGenerator_generate_def choices_def)
  qed
next
  case False
  from generate_total [OF False, of n r] obtain xs r1 where
    g: "StringGenerator_generate self n r = Inr (concat xs, r1)" and
    x: "set xs \<subseteq> set (alphabet self)" by blast
  from g assms have "s = concat xs" by simp
  with x show ?thesis by auto
qed

lemma generate_pair_symbols:
  assumes "generate_pair self len1 len2 similar r = Inr ((s1, s2), r')"
  shows "set s1 \<union> set s2 \<subseteq> (\<Union>x\<in>set (alphabet self). set x)"
proof (cases similar)
  case True
  with assms have e: "generate_pair self len1 len2 True r = Inr ((s1, s2), r')" by simp
  from generate_pair_similar_Inr [OF e] obtain r1 k r2 ys' where
    g: "StringGenerator_generate self len1 r = Inr (s1, r1)" and
    m: "mutate self (nat k) (map (\<lambda>c. [c]) s1) r2 = Inr (ys', r')" and
    s2: "s2 = concat ys'" by blast
  from generate_symbols [OF g] have s1: "set s1 \<subseteq> (\<Union>x\<in>set (alphabet self). set x)" .
  from mutate_symbols [OF m] have sub: "set ys' \<subseteq> (\<lambda>c. [c]) ` set s1 \<union> set (alphabet self)"
    by simp
  have "set (concat ys') \<subseteq> (\<Union>x\<in>set (alphabet self). set x)"
  proof
    fix c
    assume "c \<in> set (concat ys')"
    then obtain y where y: "y \<in> set ys'" "c \<in> set y" by auto
    from y(1) sub have "y \<in> (\<lambda>c. [c]) ` set s1 \<or> y \<in> set (alphabet self)" by blast
    then show "c \<in> (\<Union>x\<in>set (alphabet self). set x)"
    proof
      assume "y \<in> (\<lambda>c. [c]) ` set s1"
      with y(2) have "c \<in> set s1" by auto
      with s1 show ?thesis by (rule subsetD)
    next
      assume "y \<in> set (alphabet self)"
      with y(2) show ?thesis by blast
    qed
  qed
  with s1 s2 show ?thesis by simp
next
  case False
  with assms obtain r1 where
    g1: "StringGenerator_generate self len1 r = Inr (s1, r1)" and
    g2: "StringGenerator_generate self len2 r1 = Inr (s2, r')"
    by (auto simp: generate_pair_def split: sum.splits)
  from generate_symbols [OF g1] generate_symbols [OF g2] show ?thesis by simp
qed

section \<open>The similarity bound of generate_pair\<close>

text \<open>
  C1: over an alphabet of characters (every symbol a string of one character), whenever
  \<^verbatim>\<open>generate_pair(len1, len2, similar=True)\<close> returns a pair \<open>(str1, str2)\<close>, the two strings
  have the same length and differ in at most \<open>max(1, len1 // 3)\<close> positions. This holds for
  every \<open>len1\<close> and \<open>len2\<close>, the positive ones included, and for every entropy stream.
\<close>
theorem generate_pair_similarity_bound:
  assumes "\<forall>s\<in>set (alphabet self). length s = 1"
    and "generate_pair self len1 len2 True r = Inr ((str1, str2), r')"
  shows "length str2 = length str1 \<and> int (hamming str1 str2) \<le> max 1 (len1 div 3)"
proof -
  from generate_pair_similar_Inr [OF assms(2)] obtain r1 k r2 ys' where
    k: "randint 1 (len1 div 3) r1 = Inr (k, r2)" and
    m: "mutate self (nat k) (map (\<lambda>c. [c]) str1) r2 = Inr (ys', r')" and
    s2: "str2 = concat ys'" by blast
  have single: "\<forall>s\<in>set (map (\<lambda>c. [c]) str1). length s = 1" by simp
  from mutate_invariant [OF assms(1) single m, of str1]
  have "length ys' = length str1" "\<forall>s\<in>set ys'. length s = 1" "hamming str1 (concat ys') \<le> nat k"
    by (simp_all add: concat_singletons hamming_same)
  moreover from k have "1 \<le> k" "k \<le> len1 div 3" by (auto dest: randint_Inr)
  ultimately show ?thesis using s2 by (simp add: length_concat_single)
qed

text \<open>
  The bound at work: six symbols over \<open>{A, C, G, T}\<close>, two mutation steps, of which the
  second redraws the symbol already there.
\<close>

theorem generate_pair_similarity_bound_witness:
  "generate_pair (StringGenerator_init (Some [''A'', ''C'', ''G'', ''T''])) 6 2 True
     ([0, 3000000000000000, 5000000000000000, 7000000000000000, 0, 0, 1, 4, 3, 2, 2] @- sconst 0)
     = Inr ((''ACGTAA'', ''ACGTTA''), sconst 0) \<and>
   length ''ACGTTA'' = length ''ACGTAA'' \<and> int (hamming ''ACGTAA'' ''ACGTTA'') \<le> max 1 (6 div 3)"
proof -
  let ?g = "StringGenerator_init (Some [''A'', ''C'', ''G'', ''T''])"
  have a: "\<forall>s\<in>set (alphabet ?g). length s = 1" by (simp add: StringGenerator_init_def)
  have e: "generate_pair ?g 6 2 True
     ([0, 3000000000000000, 5000000000000000, 7000000000000000, 0, 0, 1, 4, 3, 2, 2] @- sconst 0)
     = Inr ((''ACGTAA'', ''ACGTTA''), sconst 0)"
    by (simp add: run_defs)
  from generate_pair_similarity_bound [OF a e] e show ?thesis by simp
qed

text \<open>
  Why the symbols have to be characters: \<^verbatim>\<open>list(str1)\<close> splits \<open>str1\<close> into characters, and
  a mutation step stores a whole symbol in one position. Over the alphabet \<open>['AB']\<close> the two
  strings of a pair have different lengths.
\<close>

lemma multi_character_symbol:
  "generate_pair \<lparr>alphabet = [''AB'']\<rparr> 3 3 True (sconst 0) =
     Inr ((''ABABAB'', ''ABBABAB''), sconst 0)"
  by (simp add: run_defs)

section \<open>Short first lengths in similarity mode\<close>

text \<open>
  C9: for \<open>len1 = 1\<close> and \<open>len1 = 2\<close>, and every \<open>len2\<close>,
  \<^verbatim>\<open>generate_pair(len1, len2, similar=True)\<close> raises before it returns: \<open>len1 // 3 = 0\<close>, the
  draw of the mutation count \<^verbatim>\<open>randint(1, len1 // 3)\<close> has an empty range and raises
  \<^verbatim>\<open>ValueError\<close>, so no pair is produced. (A generator whose alphabet field is empty, which
  the constructor never builds, raises \<^verbatim>\<open>IndexError\<close> one call earlier.)
\<close>
theorem generate_pair_similar_short_raises:
  assumes "len1 = 1 \<or> len1 = 2"
  shows "len1 div 3 = 0 \<and> randint 1 (len1 div 3) r1 = Inl ValueError \<and>
         generate_pair self len1 len2 True r =
           Inl (if alphabet self = [] then IndexError else ValueError)"
proof -
  from assms have d: "len1 div 3 = 0" by auto
  moreover from assms have "0 < len1" by auto
  ultimately show ?thesis
    using generate_pair_similar_short [of len1 self len2 r] by (simp add: randint_empty)
qed

theorem generate_pair_similar_short_raises_witness:
  "(2::int) div 3 = 0 \<and> randint 1 (2 div 3) (sconst 7) = Inl ValueError \<and>
   generate_pair (StringGenerator_init None) 2 9 True (sconst 7) = Inl ValueError"
  using generate_pair_similar_short_raises [of 2 "sconst 7" "StringGenerator_init None" 9 "sconst 7"]
  by (simp add: StringGenerator_init_def)

text \<open>
  C2: the mutation count is to be drawn from \<open>{1, \<dots>, max(1, len1 // 3)}\<close> and that many
  mutation steps performed, for every positive \<open>len1\<close>. At \<open>len1 = 1\<close> the source draws
  from \<^verbatim>\<open>randint(1, 0)\<close> instead: whatever the entropy stream, the call raises
  \<^verbatim>\<open>ValueError\<close>, no count is drawn and no mutation step runs.
\<close>
theorem generate_pair_similar_length_one:
  "generate_pair (StringGenerator_init (Some [''A'', ''C'', ''G'', ''T''])) 1 1 True r =
     Inl ValueError"
  using generate_pair_similar_short [of 1 "StringGenerator_init (Some [''A'', ''C'', ''G'', ''T''])" 1 r]
  by (simp add: StringGenerator_init_def)

section \<open>Arguments that are not rejected\<close>

text \<open>
  C4, as stated, fails: \<^verbatim>\<open>generate_pair(0, 5, False)\<close>, \<^verbatim>\<open>generate_pair(5, -1, True)\<close>
  and the construction from an empty alphabet all succeed, here on the stream of zeros.
\<close>
theorem invalid_arguments_accepted_counterexample:
  "generate_pair (StringGenerator_init (Some [])) 0 5 False (sconst 0) =
     Inr (('''', ''AAAAA''), sconst 0) \<and>
   generate_pair (StringGenerator_init (Some [])) 5 (- 1) True (sconst 0) =
     Inr ((''AAAAA'', ''AAAAA''), sconst 0) \<and>
   alphabet (StringGenerator_init (Some [])) = [''A'', ''B'', ''C'']"
  by (simp add: run_defs)

text \<open>
  C4, amended: over an alphabet of characters and for every entropy stream,
  \<^verbatim>\<open>generate_pair(0, 5, False)\<close> returns the empty string and a string of 5 symbols,
  \<^verbatim>\<open>generate_pair(5, -1, True)\<close> returns two strings of 5 symbols (\<open>len2\<close> is not read in
  similarity mode), and the constructor turns an empty alphabet into the default one.
\<close>
theorem invalid_arguments_accepted:
  assumes "alphabet self \<noteq> []" and "\<forall>s\<in>set (alphabet self). length s = 1"
  shows "(\<exists>s r'. generate_pair self 0 5 False r = Inr (('''', s), r') \<and> length s = 5) \<and>
         (\<exists>s1 s2 r'. generate_pair self 5 (- 1) True r = Inr ((s1, s2), r') \<and>
            length s1 = 5 \<and> length s2 = 5) \<and>
         alphabet (StringGenerator_init (Some [])) = [''A'', ''B'', ''C'']"
proof -
  have gen: "\<exists>s r'. StringGenerator_generate self n r0 = Inr (s, r') \<and> length s = nat n" for n r0
  proof -
    from generate_total [OF assms(1), of n r0] obtain xs r' where
      g: "StringGenerator_generate self n r0 = Inr (concat xs, r')" and
      l: "length xs = nat n" and x: "set xs \<subseteq> set (alphabet self)" by blast
    from x assms(2) have "\<forall>s\<in>set xs. length s = 1" by auto
    with g l show ?thesis by (auto simp: length_concat_single)
  qed
  have first: "\<exists>s r'. generate_pair self 0 5 False r = Inr (('''', s), r') \<and> length s = 5"
  proof -
    from gen [of 0 r] obtain r1 where g1: "StringGenerator_generate self 0 r = Inr ('''', r1)"
      by auto
    from gen [of 5 r1] obtain s r2 where
      "StringGenerator_generate self 5 r1 = Inr (s, r2)" "length s = 5" by auto
    with g1 show ?thesis by (simp add: generate_pair_def)
  qed
  have second: "\<exists>s1 s2 r'. generate_pair self 5 (- 1) True r = Inr ((s1, s2), r') \<and>
            length s1 = 5 \<and> length s2 = 5"
  proof -
    from gen [of 5 r] obtain s1 r1 where
      g1: "StringGenerator_generate self 5 r = Inr (s1, r1)" and l1: "length s1 = 5" by auto
    have k: "randint 1 (5 div 3) r1 = Inr (1, stl r1)" by (simp add: randint_def)
    from l1 have ne: "map (\<lambda>c. [c]) s1 \<noteq> []" by auto
    from mutate_total [OF assms(1) ne, of "nat 1" "stl r1"] obtain ys' r' where
      m: "mutate self (nat 1) (map (\<lambda>c. [c]) s1) (stl r1) = Inr (ys', r')" by blast
    have e: "generate_pair self 5 (- 1) True r = Inr ((s1, concat ys'), r')"
      using g1 k m by (simp add: generate_pair_def)
    from generate_pair_similar_Inr [OF e] obtain r1' k' r2' ys'' where
      "mutate self (nat k') (map (\<lambda>c. [c]) s1) r2' = Inr (ys'', r')" "concat ys' = concat ys''"
      by blast
    from mutate_invariant [OF assms(2) _ this(1), of s1]
    have "length (concat ys'') = length s1" by (simp add: length_concat_single)
    with e l1 \<open>concat ys' = concat ys''\<close> show ?thesis by simp
  qed
  from first second show ?thesis by (simp add: StringGenerator_init_def)
qed

theorem invalid_arguments_accepted_witness:
  "(\<exists>s r'. generate_pair (StringGenerator_init None) 0 5 False (sconst 3) = Inr (('''', s), r') \<and>
      length s = 5) \<and>
   (\<exists>s1 s2 r'. generate_pair (StringGenerator_init None) 5 (- 1) True (sconst 3) =
      Inr ((s1, s2), r') \<and> length s1 = 5 \<and> length s2 = 5)"
  using invalid_arguments_accepted [of "StringGenerator_init None" "sconst 3"]
  by (simp add: StringGenerator_init_def)

section \<open>The default alphabet\<close>

text \<open>
  C10: constructing a StringGenerator with no alphabet or with the empty list succeeds and sets
  the alphabet to \<open>['A', 'B', 'C']\<close>; \<^verbatim>\<open>generate\<close> then always returns, and every string
  that \<^verbatim>\<open>generate\<close> and \<^verbatim>\<open>generate_pair\<close> return is made of these three symbols.
\<close>
theorem default_alphabet:
  assumes "a = None \<or> a = Some []"
  shows "alphabet (StringGenerator_init a) = [''A'', ''B'', ''C''] \<and>
         (\<exists>s r'. StringGenerator_generate (StringGenerator_init a) n r = Inr (s, r') \<and>
            set s \<subseteq> {CHR ''A'', CHR ''B'', CHR ''C''}) \<and>
         (\<forall>s1 s2 r'. generate_pair (StringGenerator_init a) len1 len2 similar r = Inr ((s1, s2), r')
            \<longrightarrow> set s1 \<union> set s2 \<subseteq> {CHR ''A'', CHR ''B'', CHR ''C''})"
proof -
  let ?g = "StringGenerator_init a"
  from assms have a: "alphabet ?g = [''A'', ''B'', ''C'']"
    by (auto simp: StringGenerator_init_def)
  then have u: "(\<Union>x\<in>set (alphabet ?g). set x) = {CHR ''A'', CHR ''B'', CHR ''C''}" by auto
  from a have "alphabet ?g \<noteq> []" by simp
  from generate_total [OF this, of n r] obtain s r' where
    g: "StringGenerator_generate ?g n r = Inr (s, r')" by blast
  from generate_symbols [OF g] g u
  have "\<exists>s r'. StringGenerator_generate ?g n r = Inr (s, r') \<and>
            set s \<subseteq> {CHR ''A'', CHR ''B'', CHR ''C''}" by auto
  moreover have "\<forall>s1 s2 r'. generate_pair ?g len1 len2 similar r = Inr ((s1, s2), r')
            \<longrightarrow> set s1 \<union> set s2 \<subseteq> {CHR ''A'', CHR ''B'', CHR ''C''}"
    using generate_pair_symbols [of ?g len1 len2 similar r] u by blast
  ultimately show ?thesis using a by blast
qed

theorem default_alphabet_witness:
  "alphabet (StringGenerator_init (Some [])) = [''A'', ''B'', ''C''] \<and>
   generate_pair (StringGenerator_init (Some [])) 3 2 True
     ([0, 4000000000000000, 8000000000000000, 0, 1, 2] @- sconst 0) =
     Inr ((''ABC'', ''ACC''), sconst 0) \<and>
   set ''ABC'' \<union> set ''ACC'' \<subseteq> {CHR ''A'', CHR ''B'', CHR ''C''}"
proof -
  have e: "generate_pair (StringGenerator_init (Some [])) 3 2 True
     ([0, 4000000000000000, 8000000000000000, 0, 1, 2] @- sconst 0) =
     Inr ((''ABC'', ''ACC''), sconst 0)"
    by (simp add: run_defs)
  from default_alphabet [of "Some []" 3
      "[0, 4000000000000000, 8000000000000000, 0, 1, 2] @- sconst 0" 3 2 True] e
  show ?thesis by simp
qed

section \<open>The loops of the graph generator\<close>

subsection \<open>Dictionaries and nodes\<close>

lemma keys_dict_set:
  "map fst (dict_set k v ps) = (if k \<in> fst ` set ps then map fst ps else map fst ps @ [k])"
  by (induction ps) auto

lemma distinct_dict_set: "distinct (map fst ps) \<Longrightarrow> distinct (map fst (dict_set k v ps))"
  by (simp add: keys_dict_set)

lemma list_all_dict_set: "list_all P ps \<Longrightarrow> P (k, v) \<Longrightarrow> list_all P (dict_set k v ps)"
  by (induction ps) auto

lemma foldl_add_node:
  "distinct xs \<Longrightarrow> set xs \<inter> set (nodes g) = {} \<Longrightarrow>
   foldl add_node g xs = g\<lparr>nodes := nodes g @ xs\<rparr>"
proof (induction xs arbitrary: g)
  case Nil
  then show ?case by simp
next
  case (Cons x xs)
  from Cons.prems have x: "add_node g x = g\<lparr>nodes := nodes g @ [x]\<rparr>"
    by (simp add: add_node_def)
  from Cons.prems have "distinct xs" "set xs \<inter> set (nodes (g\<lparr>nodes := nodes g @ [x]\<rparr>)) = {}"
    by auto
  from Cons.IH [OF this] x show ?case by simp
qed

lemma create_nodes:
  "foldl add_node (empty_graph d) (range_py 0 sz) =
     \<lparr>is_directed = d, nodes = range_py 0 sz, adj = []\<rparr>"
  by (simp add: foldl_add_node empty_graph_def range_py_def)

lemma graph_inv_add_edge:
  assumes "graph_inv self sz g" "0 \<le> i" "i < j" "j < sz" "weight_ok self w"
  shows "graph_inv self sz (add_edge g i j w)"
proof -
  from assms have n: "nodes g = [0..sz - 1]" by (simp add: graph_inv_def range_py_def)
  from assms have "i \<in> set (nodes g)" "j \<in> set (nodes g)" by (simp_all add: n)
  then have e: "add_edge g i j w =
      g\<lparr>adj := (if is_directed g then dict_set (i, j) w (adj g)
                 else dict_set (j, i) w (dict_set (i, j) w (adj g)))\<rparr>"
    by (simp add: add_edge_def add_node_def Let_def)
  from assms have ij: "edge_ok self sz ((i, j), w)" by (simp add: edge_ok_def)
  show ?thesis
  proof (cases "is_directed g")
    case True
    with assms(1) e ij show ?thesis
      by (simp add: graph_inv_def distinct_dict_set list_all_dict_set)
  next
    case False
    with assms have ji: "edge_ok self sz ((j, i), w)" by (simp add: edge_ok_def graph_inv_def)
    from False assms(1) e ij ji show ?thesis
      by (simp add: graph_inv_def distinct_dict_set list_all_dict_set)
  qed
qed

subsection \<open>The loops keep an invariant\<close>

lemma edges_from_rule:
  assumes "I g"
    and "\<And>g j w. I g \<Longrightarrow> j \<in> set js \<Longrightarrow> weight_ok self w \<Longrightarrow> I (add_edge g i j w)"
  shows "\<exists>g' r'. edges_from self i js g r = Inr (g', r') \<and> I g'"
  using assms
proof (induction js arbitrary: g r)
  case Nil
  then show ?case by simp
next
  case (Cons j js)
  obtain x r1 where x: "random_random r = (x, r1)" by (cases "random_random r")
  have step: "\<And>g j w. I g \<Longrightarrow> j \<in> set js \<Longrightarrow> weight_ok self w \<Longrightarrow> I (add_edge g i j w)"
    using Cons.prems(2) by simp
  show ?case
  proof (cases "x < 3 / 10")
    case False
    with x Cons.IH [OF Cons.prems(1) step, of r1] show ?thesis by simp
  next
    case True
    show ?thesis
    proof (cases "weighted self")
      case True
      from randint_total [of 1 10 r1] obtain w where
        w: "randint 1 10 r1 = Inr (w, stl r1)" "1 \<le> w" "w \<le> 10" by auto
      with True have "weight_ok self w" by (simp add: weight_ok_def)
      with Cons.prems have "I (add_edge g i j w)" by simp
      from Cons.IH [OF this step, of "stl r1"] x \<open>x < 3 / 10\<close> True w(1) show ?thesis by simp
    next
      case False
      then have "weight_ok self 1" by (simp add: weight_ok_def)
      with Cons.prems have "I (add_edge g i j 1)" by simp
      from Cons.IH [OF this step, of r1] x \<open>x < 3 / 10\<close> False show ?thesis by simp
    qed
  qed
qed

lemma create_edges_rule:
  assumes "I g"
    and "\<And>g i j w. I g \<Longrightarrow> i \<in> set is \<Longrightarrow> j \<in> set (range_py (i + 1) sz) \<Longrightarrow>
           weight_ok self w \<Longrightarrow> I (add_edge g i j w)"
  shows "\<exists>g' r'. create_edges self sz is g r = Inr (g', r') \<and> I g'"
  using assms
proof (induction "is" arbitrary: g r)
  case Nil
  then show ?case by simp
next
  case (Cons i "is")
  have "\<exists>g' r'. edges_from self i (range_py (i + 1) sz) g r = Inr (g', r') \<and> I g'"
    using Cons.prems by (intro edges_from_rule) simp_all
  then obtain g1 r1 where
    e: "edges_from self i (range_py (i + 1) sz) g r = Inr (g1, r1)" and i: "I g1" by blast
  have "\<exists>g' r'. create_edges self sz is g1 r1 = Inr (g', r') \<and> I g'"
    using i Cons.prems(2) by (intro Cons.IH) simp_all
  with e show ?case by simp
qed

lemma generate_invariant:
  "\<exists>g r'. GraphGenerator_generate self sz r = Inr (g, r') \<and> graph_inv self sz g"
proof -
  let ?g0 = "\<lparr>is_directed = directed self, nodes = range_py 0 sz, adj = []\<rparr>"
  have 0: "graph_inv self sz ?g0" by (simp add: graph_inv_def)
  have "\<exists>g' r'. create_edges self sz (range_py 0 sz) ?g0 r = Inr (g', r') \<and> graph_inv self sz g'"
  proof (rule create_edges_rule [where I = "graph_inv self sz", OF 0])
    fix g i j w
    assume "graph_inv self sz g" "i \<in> set (range_py 0 sz)" "j \<in> set (range_py (i + 1) sz)"
      "weight_ok self w"
    then show "graph_inv self sz (add_edge g i j w)"
      by (intro graph_inv_add_edge) (simp_all add: range_py_def)
  qed
  then show ?thesis by (simp add: GraphGenerator_generate_def create_nodes)
qed

lemmas graph_run_defs =
  random_random_def randint_def range_py_def GraphGenerator_generate_def empty_graph_def
  add_node_def add_edge_def Let_def upto_rec1

subsection \<open>The edge view\<close>

lemma set_edges_subset: "set (edges g) \<subseteq> set (adj g)"
  by (auto simp: edges_def)

lemma distinct_concat_filter:
  assumes "distinct (map fst al)" and "\<And>n e. Q n e \<Longrightarrow> fst (fst e) = n"
  shows "distinct ns \<Longrightarrow> distinct (map fst (concat (map (\<lambda>n. filter (Q n) al) ns)))"
proof (induction ns)
  case Nil
  then show ?case by simp
next
  case (Cons n ns)
  have 1: "distinct (map fst (filter (Q n) al))"
    using assms(1) by (rule distinct_map_filter)
  have 2: "fst ` set (filter (Q n) al) \<inter> fst ` set (concat (map (\<lambda>n. filter (Q n) al) ns)) = {}"
  proof (rule ccontr)
    assume "\<not> ?thesis"
    then obtain k where a: "k \<in> fst ` set (filter (Q n) al)"
      and b: "k \<in> fst ` set (concat (map (\<lambda>n. filter (Q n) al) ns))" by blast
    from a obtain e where e: "Q n e" "fst e = k" by auto
    from assms(2) [OF e(1)] e(2) have "fst k = n" by simp
    moreover from b obtain m e' where m: "m \<in> set ns" "Q m e'" "fst e' = k" by auto
    from assms(2) [OF m(2)] m(1,3) have "fst k \<in> set ns" by simp
    ultimately show False using Cons.prems by simp
  qed
  from Cons 1 2 show ?case by simp
qed

lemma distinct_edges:
  assumes "distinct (nodes g)" "distinct (map fst (adj g))"
  shows "distinct (map fst (edges g))"
  unfolding edges_def
  by (rule distinct_concat_filter [OF assms(2) _ assms(1)]) auto

lemma graph_inv_edges:
  assumes "graph_inv self sz g" "e \<in> set (edges g)"
  shows "edge_ok self sz e"
proof -
  from assms(2) set_edges_subset have "e \<in> set (adj g)" by blast
  with assms(1) show ?thesis by (simp add: graph_inv_def list_all_iff)
qed

lemma walk_increasing:
  assumes "\<And>u v. has_edge g u v \<Longrightarrow> u < v"
  shows "walk g (u # vs @ [v]) \<Longrightarrow> u < v"
proof (induction vs arbitrary: u)
  case Nil
  with assms show ?case by simp
next
  case (Cons x xs)
  then have "has_edge g u x" "walk g (x # xs @ [v])" by simp_all
  with assms Cons.IH have "u < x" "x < v" by blast+
  then show ?case by simp
qed

section \<open>Nodes, weights and edges of the generated graph\<close>

text \<open>
  C6: for every \<open>size \<ge> 0\<close>, every configuration and every entropy stream,
  \<^verbatim>\<open>GraphGenerator.generate(size)\<close> returns a graph with exactly \<open>size\<close> nodes, and its
  nodes are \<open>0, \<dots>, size - 1\<close> (in this order).
\<close>
theorem generate_nodes:
  assumes "0 \<le> sz"
  shows "\<exists>g r'. GraphGenerator_generate self sz r = Inr (g, r') \<and>
           nodes g = [0..sz - 1] \<and> length (nodes g) = nat sz \<and> set (nodes g) = {0..sz - 1}"
proof -
  from generate_invariant [of self sz r] obtain g r' where
    g: "GraphGenerator_generate self sz r = Inr (g, r')" and i: "graph_inv self sz g" by blast
  from i have n: "nodes g = [0..sz - 1]" by (simp add: graph_inv_def range_py_def)
  with assms have "length (nodes g) = nat sz" "set (nodes g) = {0..sz - 1}" by simp_all
  with g n show ?thesis by blast
qed

theorem generate_nodes_witness:
  "GraphGenerator_generate \<lparr>directed = False, weighted = True\<rparr> 3
       ([0, 4, 9000000000000000, 1, 12] @- sconst 0) =
     Inr (\<lparr>is_directed = False, nodes = [0, 1, 2],
           adj = [((0, 1), 5), ((1, 0), 5), ((1, 2), 3), ((2, 1), 3)]\<rparr>, sconst 0) \<and>
   length [0, 1, 2 :: int] = nat 3 \<and> set [0, 1, 2 :: int] = {0..3 - 1}"
proof -
  have e: "GraphGenerator_generate \<lparr>directed = False, weighted = True\<rparr> 3
       ([0, 4, 9000000000000000, 1, 12] @- sconst 0) =
     Inr (\<lparr>is_directed = False, nodes = [0, 1, 2],
           adj = [((0, 1), 5), ((1, 0), 5), ((1, 2), 3), ((2, 1), 3)]\<rparr>, sconst 0)"
    by (simp add: graph_run_defs)
  from generate_nodes [of 3 "\<lparr>directed = False, weighted = True\<rparr>"
      "[0, 4, 9000000000000000, 1, 12] @- sconst 0"] e
  show ?thesis by auto
qed

text \<open>
  C7: for every \<open>size \<ge> 0\<close>, \<^verbatim>\<open>generate(size)\<close> returns a graph whose every edge
  \<open>(u, v, w)\<close> has \<open>w = 1\<close> when the generator is unweighted and \<open>1 \<le> w \<le> 10\<close> when it is
  weighted.
\<close>
theorem generate_weights:
  assumes "0 \<le> sz"
  shows "\<exists>g r'. GraphGenerator_generate self sz r = Inr (g, r') \<and>
           (\<forall>((u, v), w)\<in>set (edges g).
              (\<not> weighted self \<longrightarrow> w = 1) \<and> (weighted self \<longrightarrow> 1 \<le> w \<and> w \<le> 10))"
proof -
  from generate_invariant [of self sz r] obtain g r' where
    g: "GraphGenerator_generate self sz r = Inr (g, r')" and i: "graph_inv self sz g" by blast
  have "\<forall>((u, v), w)\<in>set (edges g).
              (\<not> weighted self \<longrightarrow> w = 1) \<and> (weighted self \<longrightarrow> 1 \<le> w \<and> w \<le> 10)"
  proof (clarify)
    fix u v w
    assume "((u, v), w) \<in> set (edges g)"
    from graph_inv_edges [OF i this]
    show "(\<not> weighted self \<longrightarrow> w = 1) \<and> (weighted self \<longrightarrow> 1 \<le> w \<and> w \<le> 10)"
      by (simp add: edge_ok_def weight_ok_def)
  qed
  with g show ?thesis by blast
qed

theorem generate_weights_witness:
  "GraphGenerator_generate \<lparr>directed = False, weighted = True\<rparr> 3
       ([0, 4, 9000000000000000, 1, 12] @- sconst 0) =
     Inr (\<lparr>is_directed = False, nodes = [0, 1, 2],
           adj = [((0, 1), 5), ((1, 0), 5), ((1, 2), 3), ((2, 1), 3)]\<rparr>, sconst 0) \<and>
   edges \<lparr>is_directed = False, nodes = [0, 1, 2],
           adj = [((0, 1), 5), ((1, 0), 5), ((1, 2), 3), ((2, 1), 3)]\<rparr> =
     [((0, 1), 5), ((1, 2), 3)] \<and>
   list_all (\<lambda>((u, v), w). 1 \<le> w \<and> w \<le> 10) [((0 :: int, 1 :: int), 5 :: int), ((1, 2), 3)]"
proof -
  have e: "GraphGenerator_generate \<lparr>directed = False, weighted = True\<rparr> 3
       ([0, 4, 9000000000000000, 1, 12] @- sconst 0) =
     Inr (\<lparr>is_directed = False, nodes = [0, 1, 2],
           adj = [((0, 1), 5), ((1, 0), 5), ((1, 2), 3), ((2, 1), 3)]\<rparr>, sconst 0)"
    by (simp add: graph_run_defs)
  have v: "edges \<lparr>is_directed = False, nodes = [0, 1, 2],
           adj = [((0, 1), 5), ((1, 0), 5), ((1, 2), 3), ((2, 1), 3)]\<rparr> =
     [((0, 1), 5), ((1, 2), 3)]"
    by (simp add: edges_def)
  from generate_weights [of 3 "\<lparr>directed = False, weighted = True\<rparr>"
      "[0, 4, 9000000000000000, 1, 12] @- sconst 0"] e v
  show ?thesis by simp
qed

section \<open>Negative sizes\<close>

text \<open>
  C5, as stated, fails: \<^verbatim>\<open>generate(-3)\<close> raises nothing and returns the empty graph.
\<close>
theorem negative_size_accepted_counterexample:
  "GraphGenerator_generate \<lparr>directed = False, weighted = True\<rparr> (- 3) (sconst 0) =
     Inr (\<lparr>is_directed = False, nodes = [], adj = []\<rparr>, sconst 0)"
  by (simp add: graph_run_defs)

text \<open>
  C5, amended: for every negative \<open>size\<close>, \<^verbatim>\<open>generate(size)\<close> returns the graph with no
  node and no edge, of the configured directedness, and draws nothing from the entropy stream
  (both \<^verbatim>\<open>range(size)\<close> loops are empty).
\<close>
theorem negative_size_accepted:
  assumes "sz < 0"
  shows "GraphGenerator_generate self sz r = Inr (empty_graph (directed self), r)"
proof -
  from assms have "range_py 0 sz = []" by (simp add: range_py_def)
  then show ?thesis by (simp add: GraphGenerator_generate_def)
qed

theorem negative_size_accepted_witness:
  "GraphGenerator_generate \<lparr>directed = True, weighted = False\<rparr> (- 1) (sconst 2) =
     Inr (\<lparr>is_directed = True, nodes = [], adj = []\<rparr>, sconst 2)"
  using negative_size_accepted [of "- 1" "\<lparr>directed = True, weighted = False\<rparr>" "sconst 2"]
  by (simp add: empty_graph_def)

section \<open>Directed graphs follow the node order\<close>

text \<open>
  C3: for every \<open>size \<ge> 0\<close> and a generator built with \<open>directed = True\<close>,
  \<^verbatim>\<open>generate(size)\<close> returns a directed graph whose every edge \<open>(u, v)\<close> has \<open>u < v\<close>; hence
  it has no self-loop, no 2-cycle, no pair of nodes with two edges, and no cycle at all.
\<close>
theorem directed_edges_increasing:
  assumes "directed self" and "0 \<le> sz"
  shows "\<exists>g r'. GraphGenerator_generate self sz r = Inr (g, r') \<and> is_directed g \<and>
           (\<forall>((u, v), w)\<in>set (edges g). u < v) \<and>
           (\<forall>u. \<not> has_edge g u u) \<and>
           (\<forall>u v. has_edge g u v \<longrightarrow> \<not> has_edge g v u) \<and>
           distinct (map fst (edges g)) \<and>
           (\<forall>v vs. \<not> walk g (v # vs @ [v]))"
proof -
  from generate_invariant [of self sz r] obtain g r' where
    g: "GraphGenerator_generate self sz r = Inr (g, r')" and i: "graph_inv self sz g" by blast
  have lt: "u < v" if "((u, v), w) \<in> set (edges g)" for u v w
    using graph_inv_edges [OF i that] assms(1) by (simp add: edge_ok_def)
  then have he: "u < v" if "has_edge g u v" for u v
    using that by (auto simp: has_edge_def)
  have 1: "\<forall>((u, v), w)\<in>set (edges g). u < v" using lt by auto
  have 2: "\<forall>u. \<not> has_edge g u u" using he by fastforce
  have 3: "\<forall>u v. has_edge g u v \<longrightarrow> \<not> has_edge g v u"
  proof (intro allI impI notI)
    fix u v
    assume "has_edge g u v" "has_edge g v u"
    from he [OF this(1)] he [OF this(2)] show False by simp
  qed
  from i have "distinct (nodes g)" "distinct (map fst (adj g))"
    by (simp_all add: graph_inv_def range_py_def)
  then have 4: "distinct (map fst (edges g))" by (rule distinct_edges)
  have 5: "\<forall>v vs. \<not> walk g (v # vs @ [v])"
  proof (intro allI notI)
    fix v vs
    assume "walk g (v # vs @ [v])"
    with he have "v < v" by (rule walk_increasing)
    then show False by simp
  qed
  from i assms(1) have "is_directed g" by (simp add: graph_inv_def)
  with g 1 2 3 4 5 show ?thesis by blast
qed

theorem directed_edges_increasing_witness:
  "GraphGenerator_generate \<lparr>directed = True, weighted = True\<rparr> 3
       ([0, 4, 9000000000000000, 1, 12] @- sconst 0) =
     Inr (\<lparr>is_directed = True, nodes = [0, 1, 2], adj = [((0, 1), 5), ((1, 2), 3)]\<rparr>, sconst 0) \<and>
   edges \<lparr>is_directed = True, nodes = [0, 1, 2], adj = [((0, 1), 5), ((1, 2), 3)]\<rparr> =
     [((0, 1), 5), ((1, 2), 3)] \<and>
   list_all (\<lambda>((u, v), w). u < v) [((0 :: int, 1 :: int), 5 :: int), ((1, 2), 3)] \<and>
   \<not> walk \<lparr>is_directed = True, nodes = [0, 1, 2], adj = [((0, 1), 5), ((1, 2), 3)]\<rparr> [0, 1, 2, 0]"
proof -
  have e: "GraphGenerator_generate \<lparr>directed = True, weighted = True\<rparr> 3
       ([0, 4, 9000000000000000, 1, 12] @- sconst 0) =
     Inr (\<lparr>is_directed = True, nodes = [0, 1, 2], adj = [((0, 1), 5), ((1, 2), 3)]\<rparr>, sconst 0)"
    by (simp add: graph_run_defs)
  have v: "edges \<lparr>is_directed = True, nodes = [0, 1, 2], adj = [((0, 1), 5), ((1, 2), 3)]\<rparr> =
     [((0, 1), 5), ((1, 2), 3)]"
    by (simp add: edges_def)
  from directed_edges_increasing [of "\<lparr>directed = True, weighted = True\<rparr>" 3
      "[0, 4, 9000000000000000, 1, 12] @- sconst 0"] e
  have "\<forall>v vs. \<not> walk \<lparr>is_directed = True, nodes = [0, 1, 2], adj = [((0, 1), 5), ((1, 2), 3)]\<rparr>
      (v # vs @ [v])" by simp
  then have "\<not> walk \<lparr>is_directed = True, nodes = [0, 1, 2], adj = [((0, 1), 5), ((1, 2), 3)]\<rparr>
      (0 # [1, 2] @ [0])" by blast
  with e v show ?thesis by simp
qed

subsection \<open>Runs on streams that agree on a prefix\<close>

lemma stake_eq_mono:
  assumes "m \<le> n" "stake n a = stake n b"
  shows "stake m a = stake m b"
proof -
  have "stake m a = take m (stake n a)" using assms(1) by (simp add: take_stake min_def)
  also have "\<dots> = take m (stake n b)" using assms(2) by simp
  also have "\<dots> = stake m b" using assms(1) by (simp add: take_stake min_def)
  finally show ?thesis .
qed

lemma stake_pos: "0 < n \<Longrightarrow> stake n s = shd s # stake (n - 1) (stl s)"
  by (cases n) simp_all

lemma edges_from_agree:
  "stake (2 * length js + n) r1 = stake (2 * length js + n) r2 \<Longrightarrow>
   \<exists>g' r1' r2'. edges_from self i js g r1 = Inr (g', r1') \<and>
                edges_from self i js g r2 = Inr (g', r2') \<and> stake n r1' = stake n r2'"
proof (induction js arbitrary: g r1 r2)
  case Nil
  then show ?case by simp
next
  case (Cons j js)
  let ?N = "2 * length js + n"
  from Cons.prems have p: "stake (Suc (Suc ?N)) r1 = stake (Suc (Suc ?N)) r2" by simp
  then have h1: "shd r1 = shd r2" and t1: "stake (Suc ?N) (stl r1) = stake (Suc ?N) (stl r2)"
    by simp_all
  from t1 have h2: "shd (stl r1) = shd (stl r2)"
    and t2: "stake ?N (stl (stl r1)) = stake ?N (stl (stl r2))" by simp_all
  from t1 have t1': "stake ?N (stl r1) = stake ?N (stl r2)"
    by (rule stake_eq_mono [rotated]) simp
  define x where "x = fst (random_random r1)"
  then have x1: "random_random r1 = (x, stl r1)" by (simp add: random_random_def)
  from x_def h1 have x2: "random_random r2 = (x, stl r2)" by (simp add: random_random_def)
  show ?case
  proof (cases "x < 3 / 10")
    case False
    with x1 x2 Cons.IH [OF t1', of g] show ?thesis by simp
  next
    case True
    show ?thesis
    proof (cases "weighted self")
      case False
      with True x1 x2 Cons.IH [OF t1', of "add_edge g i j 1"] show ?thesis by simp
    next
      case w: True
      obtain k where k1: "randint 1 10 (stl r1) = Inr (k, stl (stl r1))"
        by (simp add: randint_def)
      with h2 have k2: "randint 1 10 (stl r2) = Inr (k, stl (stl r2))"
        by (simp add: randint_def)
      from True w x1 x2 k1 k2 Cons.IH [OF t2, of "add_edge g i j k"] show ?thesis by simp
    qed
  qed
qed

lemma create_edges_agree:
  "stake (sum_list (map (\<lambda>i. 2 * length (range_py (i + 1) sz)) is) + n) r1 =
   stake (sum_list (map (\<lambda>i. 2 * length (range_py (i + 1) sz)) is) + n) r2 \<Longrightarrow>
   \<exists>g' r1' r2'. create_edges self sz is g r1 = Inr (g', r1') \<and>
                create_edges self sz is g r2 = Inr (g', r2') \<and> stake n r1' = stake n r2'"
proof (induction "is" arbitrary: g r1 r2)
  case Nil
  then show ?case by simp
next
  case (Cons i "is")
  let ?rest = "sum_list (map (\<lambda>i. 2 * length (range_py (i + 1) sz)) is)"
  from Cons.prems have
    "stake (2 * length (range_py (i + 1) sz) + (?rest + n)) r1 =
     stake (2 * length (range_py (i + 1) sz) + (?rest + n)) r2" by (simp add: add.assoc)
  from edges_from_agree [OF this, of self i g] obtain g1 s1 s2 where
    e: "edges_from self i (range_py (i + 1) sz) g r1 = Inr (g1, s1)"
       "edges_from self i (range_py (i + 1) sz) g r2 = Inr (g1, s2)" and
    s: "stake (?rest + n) s1 = stake (?rest + n) s2" by blast
  from Cons.IH [OF s, of g1] e show ?case by simp
qed

lemma draws_upto:
  "a \<le> sz \<Longrightarrow> 0 \<le> a \<Longrightarrow>
   int (sum_list (map (\<lambda>i. 2 * length (range_py (i + 1) sz)) [a..sz - 1])) =
     (sz - a) * (sz - a - 1)"
proof (induction "nat (sz - a)" arbitrary: a)
  case 0
  then have "a = sz" by simp
  then show ?case by simp
next
  case (Suc m)
  then have lt: "a \<le> sz - 1" by linarith
  then have u: "[a..sz - 1] = a # [a + 1..sz - 1]" by (simp add: upto_rec1)
  from Suc have m: "m = nat (sz - (a + 1))" by linarith
  from Suc.hyps(1) [OF m] Suc.prems lt have
    ih: "int (sum_list (map (\<lambda>i. 2 * length (range_py (i + 1) sz)) [a + 1..sz - 1])) =
         (sz - (a + 1)) * (sz - (a + 1) - 1)" by simp
  from lt have l: "int (length (range_py (a + 1) sz)) = sz - 1 - a" by (simp add: range_py_def)
  have "int (sum_list (map (\<lambda>i. 2 * length (range_py (i + 1) sz)) [a..sz - 1])) =
        2 * (sz - 1 - a) + (sz - (a + 1)) * (sz - (a + 1) - 1)"
    unfolding u using ih l by simp
  also have "\<dots> = (sz - a) * (sz - a - 1)" by (simp add: algebra_simps)
  finally show ?case .
qed

lemma draws_total:
  assumes "0 \<le> sz"
  shows "sum_list (map (\<lambda>i. 2 * length (range_py (i + 1) sz)) (range_py 0 sz)) =
           nat (sz * (sz - 1))"
proof -
  from draws_upto [of 0 sz] assms have
    "int (sum_list (map (\<lambda>i. 2 * length (range_py (i + 1) sz)) (range_py 0 sz))) = sz * (sz - 1)"
    by (simp add: range_py_def)
  then show ?thesis by linarith
qed

section \<open>Determinism under a fixed seed\<close>

text \<open>
  C8: for every \<open>size \<ge> 0\<close>, two runs of \<^verbatim>\<open>generate(size)\<close> on the same entropy stream
  return the same graph: the same edges with the same weights. More precisely the result
  depends on the first \<open>size * (size - 1)\<close> draws only (at most two draws for each of the
  \<open>size * (size - 1) / 2\<close> pairs), so two streams that agree on that prefix give the same graph.
\<close>
theorem generate_deterministic:
  assumes "0 \<le> sz"
    and "stake (nat (sz * (sz - 1))) r1 = stake (nat (sz * (sz - 1))) r2"
  shows "\<exists>g1 g2 r1' r2'. GraphGenerator_generate self sz r1 = Inr (g1, r1') \<and>
           GraphGenerator_generate self sz r2 = Inr (g2, r2') \<and>
           g1 = g2 \<and> edges g1 = edges g2"
proof -
  let ?g0 = "foldl add_node (empty_graph (directed self)) (range_py 0 sz)"
  from assms have
    "stake (sum_list (map (\<lambda>i. 2 * length (range_py (i + 1) sz)) (range_py 0 sz)) + 0) r1 =
     stake (sum_list (map (\<lambda>i. 2 * length (range_py (i + 1) sz)) (range_py 0 sz)) + 0) r2"
    by (simp add: draws_total)
  from create_edges_agree [OF this, of self ?g0] obtain g r1' r2' where
    "create_edges self sz (range_py 0 sz) ?g0 r1 = Inr (g, r1')"
    "create_edges self sz (range_py 0 sz) ?g0 r2 = Inr (g, r2')" by blast
  then show ?thesis by (simp add: GraphGenerator_generate_def)
qed

text \<open>
  Two streams that differ only after their sixth draw, at \<open>size = 3\<close>: the same graph, and
  what is left of each stream.
\<close>

theorem generate_deterministic_witness:
  "GraphGenerator_generate \<lparr>directed = True, weighted = True\<rparr> 3
       ([0, 4, 9000000000000000, 1, 12, 7] @- sconst 0) =
     Inr (\<lparr>is_directed = True, nodes = [0, 1, 2], adj = [((0, 1), 5), ((1, 2), 3)]\<rparr>,
          [7] @- sconst 0) \<and>
   GraphGenerator_generate \<lparr>directed = True, weighted = True\<rparr> 3
       ([0, 4, 9000000000000000, 1, 12, 7] @- sconst 1) =
     Inr (\<lparr>is_directed = True, nodes = [0, 1, 2], adj = [((0, 1), 5), ((1, 2), 3)]\<rparr>,
          [7] @- sconst 1)"
proof -
  have s: "stake (nat (3 * (3 - 1))) ([0, 4, 9000000000000000, 1, 12, 7] @- sconst (0 :: nat)) =
           stake (nat (3 * (3 - 1))) ([0, 4, 9000000000000000, 1, 12, 7] @- sconst 1)"
    by (simp add: stake_pos)
  have e1: "GraphGenerator_generate \<lparr>directed = True, weighted = True\<rparr> 3
       ([0, 4, 9000000000000000, 1, 12, 7] @- sconst 0) =
     Inr (\<lparr>is_directed = True, nodes = [0, 1, 2], adj = [((0, 1), 5), ((1, 2), 3)]\<rparr>,
          [7] @- sconst 0)"
    by (simp add: graph_run_defs)
  have e2: "GraphGenerator_generate \<lparr>directed = True, weighted = True\<rparr> 3
       ([0, 4, 9000000000000000, 1, 12, 7] @- sconst 1) =
     Inr (\<lparr>is_directed = True, nodes = [0, 1, 2], adj = [((0, 1), 5), ((1, 2), 3)]\<rparr>,
          [7] @- sconst 1)"
    by (simp add: graph_run_defs)
  from generate_deterministic [OF _ s, of "\<lparr>directed = True, weighted = True\<rparr>"] e1 e2
  show ?thesis by simp
qed

end
